theory Spec2Isabelle
  imports Main "HOL-Library.Word" "HOL-Library.Sublist"
begin

section \<open>The ECS deployment streamer (internal/pkg/stream/ecs.go)\<close>

text \<open>
  The streamer polls a describe-service operation, turns each answer into an
  \<open>ECSService\<close> snapshot, buffers it, and fans the buffer out to subscribed channels.
  The model is a shallow embedding: every method of \<open>ECSDeploymentStreamer\<close> is a
  function on a record of the receiver's fields. A run-time panic of Go is the left
  injection of the result; nothing in the source recovers from a panic, so a panic
  ends the run.
\<close>

subsection \<open>Go run-time and library pieces\<close>

datatype panic = IndexOutOfRange | CloseOfClosedChannel | SendOnClosedChannel

text \<open>
  Go strings are byte sequences, as \<open>string\<close> is. \<open>time.Time\<close> is an instant, here the
  number of nanoseconds since the zero value \<open>time.Time{}\<close>; \<open>Before\<close> is strict.
\<close>

type_synonym Time = int

definition Before :: "Time \<Rightarrow> Time \<Rightarrow> bool" where
  "Before t u = (t < u)"

text \<open>The \<open>aws.XValue\<close> helpers read through a pointer, a nil pointer giving the zero value.\<close>

definition StringValue :: "string option \<Rightarrow> string" where
  "StringValue p = (case p of None \<Rightarrow> [] | Some v \<Rightarrow> v)"

definition Int64Value :: "64 word option \<Rightarrow> 64 word" where
  "Int64Value p = (case p of None \<Rightarrow> 0 | Some v \<Rightarrow> v)"

definition TimeValue :: "Time option \<Rightarrow> Time" where
  "TimeValue p = (case p of None \<Rightarrow> 0 | Some v \<Rightarrow> v)"

text \<open>
  \<open>strings.Split(s, sep)\<close> for a separator of one byte, the only kind the source passes
  (\<open>"/"\<close> and \<open>":"\<close>): the pieces of \<open>s\<close> between the separators, in order; a string
  without separator, the empty one included, is its own single piece.
\<close>

fun Split :: "string \<Rightarrow> char \<Rightarrow> string list" where
  "Split [] sep = [[]]"
| "Split (c # cs) sep =
     (if c = sep then [] # Split cs sep
      else (case Split cs sep of
              [] \<Rightarrow> [[c]]
            | piece # pieces \<Rightarrow> (c # piece) # pieces))"

text \<open>\<open>xs[i]\<close> on a slice: out of range is a panic.\<close>

definition index :: "'a list \<Rightarrow> nat \<Rightarrow> panic + 'a" where
  "index xs i = (if i < length xs then Inr (xs ! i) else Inl IndexOutOfRange)"

text \<open>\<open>strings.Contains(s, substr)\<close>: \<open>substr\<close> occurs in \<open>s\<close> at some position.\<close>

fun Contains :: "string \<Rightarrow> string \<Rightarrow> bool" where
  "Contains [] substr = (substr = [])"
| "Contains (c # cs) substr = (prefix substr (c # cs) \<or> Contains cs substr)"

text \<open>
  A channel: whether it has been closed, and the values sent on it so far, oldest
  first. The subscriber channels are unbuffered, so a send completes when the reader
  takes the value; the model records the send and does not model a reader that never
  comes. Sending on, or closing, a closed channel panics.
\<close>

record 'a chan =
  ch_closed :: bool
  ch_delivered :: "'a list"

definition make_chan :: "'a chan" where
  "make_chan = \<lparr>ch_closed = False, ch_delivered = []\<rparr>"

definition close :: "'a chan \<Rightarrow> panic + 'a chan" where
  "close c = (if ch_closed c then Inl CloseOfClosedChannel else Inr (c\<lparr>ch_closed := True\<rparr>))"

definition send :: "'a chan \<Rightarrow> 'a \<Rightarrow> panic + 'a chan" where
  "send c v =
     (if ch_closed c then Inl SendOnClosedChannel
      else Inr (c\<lparr>ch_delivered := ch_delivered c @ [v]\<rparr>))"

text \<open>
  An \<open>error\<close> value: one made outside the package, or \<open>fmt.Errorf(format + "%w", err)\<close>,
  whose message is the formatted text and whose \<open>Unwrap\<close> is \<open>err\<close>.
\<close>

datatype error = ExternalError string | Errorf_w string error

fun Error :: "error \<Rightarrow> string" where
  "Error (ExternalError m) = m"
| "Error (Errorf_w pre e) = pre @ Error e"

fun Unwrap :: "error \<Rightarrow> error option" where
  "Unwrap (ExternalError m) = None"
| "Unwrap (Errorf_w pre e) = Some e"

subsection \<open>The describe result\<close>

text \<open>
  The fields of the SDK's \<open>ecs.Deployment\<close>, \<open>ecs.ServiceEvent\<close> and \<open>ecs.Service\<close> that
  \<open>Fetch\<close> reads. Every field is a pointer in the SDK, \<open>None\<close> being nil; the elements
  of the two slices are taken to be non-nil.
\<close>

record Deployment =
  d_Status :: "string option"
  d_TaskDefinition :: "string option"
  d_DesiredCount :: "64 word option"
  d_RunningCount :: "64 word option"
  d_FailedTasks :: "64 word option"
  d_PendingCount :: "64 word option"
  d_RolloutState :: "string option"

record ServiceEvent =
  e_CreatedAt :: "Time option"
  e_Id :: "string option"
  e_Message :: "string option"

record Service =
  s_Deployments :: "Deployment list"
  s_Events :: "ServiceEvent list"

subsection \<open>The streamer's data\<close>

definition ecsPrimaryDeploymentStatus :: string where
  "ecsPrimaryDeploymentStatus = ''PRIMARY''"

definition ecsEventFailureKeywords :: "string list" where
  "ecsEventFailureKeywords =
     [''fail'', ''unhealthy'', ''error'', ''throttle'', ''unable'', ''missing'']"

text \<open>Go's \<open>int\<close> is taken at 64 bits, so \<open>int(x)\<close> of an \<open>int64\<close> is \<open>x\<close>.\<close>

record ECSDeployment =
  Status :: string
  TaskDefRevision :: string
  DesiredCount :: "64 word"
  RunningCount :: "64 word"
  FailedCount :: "64 word"
  PendingCount :: "64 word"
  RolloutState :: string

record ECSService =
  Deployments :: "ECSDeployment list"
  LatestFailureEvents :: "string list"

text \<open>
  The receiver. The \<open>client\<close> field is the external describe operation: its answer is
  an argument of \<open>Fetch\<close>. The field \<open>done\<close> is \<open>done_ch\<close> here.
\<close>

record ECSDeploymentStreamer =
  cluster :: string
  service :: string
  deploymentCreationTime :: Time
  subscribers :: "ECSService chan list"
  done_ch :: "unit chan"
  pastEventIDs :: "string \<rightharpoonup> bool"
  eventsToFlush :: "ECSService list"

definition NewECSDeploymentStreamer :: "string \<Rightarrow> string \<Rightarrow> Time \<Rightarrow> ECSDeploymentStreamer" where
  "NewECSDeploymentStreamer cl sv t =
     \<lparr>cluster = cl, service = sv, deploymentCreationTime = t,
      subscribers = [], done_ch = make_chan, pastEventIDs = Map.empty, eventsToFlush = []\<rparr>"

text \<open>\<open>Subscribe\<close> returns the new channel: here its position among the subscribers.\<close>

definition Subscribe :: "ECSDeploymentStreamer \<Rightarrow> nat \<times> ECSDeploymentStreamer" where
  "Subscribe s = (length (subscribers s), s\<lparr>subscribers := subscribers s @ [make_chan]\<rparr>)"

subsection \<open>Parsing and classifying\<close>

definition parseRevisionFromTaskDefARN :: "string \<Rightarrow> panic + string" where
  "parseRevisionFromTaskDefARN arn =
     (case index (Split arn (CHR ''/'')) 1 of
        Inl p \<Rightarrow> Inl p
      | Inr familyName \<Rightarrow> index (Split familyName (CHR '':'')) 1)"

fun isFailureServiceEvent_loop :: "string \<Rightarrow> string list \<Rightarrow> bool" where
  "isFailureServiceEvent_loop msg [] = False"
| "isFailureServiceEvent_loop msg (kw # kws) =
     (if Contains msg kw then True else isFailureServiceEvent_loop msg kws)"

definition isFailureServiceEvent :: "string \<Rightarrow> bool" where
  "isFailureServiceEvent msg = isFailureServiceEvent_loop msg ecsEventFailureKeywords"

subsection \<open>Fetch\<close>

text \<open>
  The first loop of \<open>Fetch\<close>, over \<open>out.Deployments\<close>: its body
  (\<open>Fetch_deployment\<close>) appends one \<open>ECSDeployment\<close> and closes \<open>done\<close> when the entry
  is primary with its desired count equal to its running count. The revision is parsed
  while the entry is built, before the close.
\<close>

definition Fetch_deployment ::
  "Deployment \<Rightarrow> ECSDeployment list \<Rightarrow> unit chan \<Rightarrow> panic + (ECSDeployment list \<times> unit chan)"
where
  "Fetch_deployment deployment deployments dn =
     (let status = StringValue (d_Status deployment);
          desiredCount = Int64Value (d_DesiredCount deployment);
          runningCount = Int64Value (d_RunningCount deployment)
      in case parseRevisionFromTaskDefARN (StringValue (d_TaskDefinition deployment)) of
           Inl p \<Rightarrow> Inl p
         | Inr revision \<Rightarrow>
             (let deployments' = deployments @
                    [\<lparr>Status = status,
                      TaskDefRevision = revision,
                      DesiredCount = desiredCount,
                      RunningCount = runningCount,
                      FailedCount = Int64Value (d_FailedTasks deployment),
                      PendingCount = Int64Value (d_PendingCount deployment),
                      RolloutState = StringValue (d_RolloutState deployment)\<rparr>]
              in if status = ecsPrimaryDeploymentStatus \<and> desiredCount = runningCount
                 then (case close dn of
                         Inl p \<Rightarrow> Inl p
                       | Inr dn' \<Rightarrow> Inr (deployments', dn'))
                 else Inr (deployments', dn)))"

fun Fetch_deployments ::
  "Deployment list \<Rightarrow> ECSDeployment list \<Rightarrow> unit chan \<Rightarrow> panic + (ECSDeployment list \<times> unit chan)"
where
  "Fetch_deployments [] deployments dn = Inr (deployments, dn)"
| "Fetch_deployments (deployment # rest) deployments dn =
     (case Fetch_deployment deployment deployments dn of
        Inl p \<Rightarrow> Inl p
      | Inr (deployments', dn') \<Rightarrow> Fetch_deployments rest deployments' dn')"

text \<open>
  The second loop, over \<open>out.Events\<close>, with its two \<open>break\<close>s. The lookup
  \<open>_, ok := s.pastEventIDs[id]\<close> asks whether the key is present.
\<close>

fun Fetch_events ::
  "Time \<Rightarrow> ServiceEvent list \<Rightarrow> string list \<Rightarrow> (string \<rightharpoonup> bool)
     \<Rightarrow> string list \<times> (string \<rightharpoonup> bool)"
where
  "Fetch_events t [] failureMsgs past = (failureMsgs, past)"
| "Fetch_events t (event # rest) failureMsgs past =
     (if Before (TimeValue (e_CreatedAt event)) t then (failureMsgs, past)
      else (let id = StringValue (e_Id event)
            in if past id \<noteq> None then (failureMsgs, past)
               else (let msg = StringValue (e_Message event);
                         failureMsgs' =
                           (if isFailureServiceEvent msg then failureMsgs @ [msg]
                            else failureMsgs)
                     in Fetch_events t rest failureMsgs' (past(id \<mapsto> True)))))"

text \<open>
  \<open>Fetch\<close>. Its arguments beyond the receiver: the package constant
  \<open>streamerFetchIntervalDuration\<close>, declared in another file; what
  \<open>s.client.Service(s.cluster, s.service)\<close> returned; and the reading of \<open>time.Now()\<close>.
  It returns the pair \<open>(next, err)\<close>, \<open>None\<close> being the nil error, and the receiver.
\<close>

definition Fetch ::
  "int \<Rightarrow> error + Service \<Rightarrow> Time \<Rightarrow> ECSDeploymentStreamer
     \<Rightarrow> panic + ((Time \<times> error option) \<times> ECSDeploymentStreamer)"
where
  "Fetch streamerFetchIntervalDuration described now s =
     (case described of
        Inl err \<Rightarrow> Inr ((0, Some (Errorf_w ''fetch service description: '' err)), s)
      | Inr out \<Rightarrow>
          (case Fetch_deployments (s_Deployments out) [] (done_ch s) of
             Inl p \<Rightarrow> Inl p
           | Inr (deployments, dn) \<Rightarrow>
               (case Fetch_events (deploymentCreationTime s) (s_Events out) [] (pastEventIDs s) of
                  (failureMsgs, past) \<Rightarrow>
                    Inr ((now + streamerFetchIntervalDuration, None),
                         s\<lparr>done_ch := dn,
                           pastEventIDs := past,
                           eventsToFlush := eventsToFlush s @
                             [\<lparr>Deployments = deployments,
                               LatestFailureEvents = failureMsgs\<rparr>]\<rparr>))))"

subsection \<open>Notify, Close, Done\<close>

text \<open>The inner loop of \<open>Notify\<close>: one event sent to every subscriber, in order.\<close>

fun Notify_subscribers :: "ECSService chan list \<Rightarrow> ECSService \<Rightarrow> panic + ECSService chan list" where
  "Notify_subscribers [] event = Inr []"
| "Notify_subscribers (sub # subs) event =
     (case send sub event of
        Inl p \<Rightarrow> Inl p
      | Inr sub' \<Rightarrow>
          (case Notify_subscribers subs event of
             Inl p \<Rightarrow> Inl p
           | Inr subs' \<Rightarrow> Inr (sub' # subs')))"

text \<open>The outer loop, over \<open>s.eventsToFlush\<close>.\<close>

fun Notify_events :: "ECSService list \<Rightarrow> ECSService chan list \<Rightarrow> panic + ECSService chan list" where
  "Notify_events [] subs = Inr subs"
| "Notify_events (event # events) subs =
     (case Notify_subscribers subs event of
        Inl p \<Rightarrow> Inl p
      | Inr subs' \<Rightarrow> Notify_events events subs')"

definition Notify :: "ECSDeploymentStreamer \<Rightarrow> panic + ECSDeploymentStreamer" where
  "Notify s =
     (case Notify_events (eventsToFlush s) (subscribers s) of
        Inl p \<Rightarrow> Inl p
      | Inr subs \<Rightarrow> Inr (s\<lparr>subscribers := subs, eventsToFlush := []\<rparr>))"

fun Close_loop :: "ECSService chan list \<Rightarrow> panic + ECSService chan list" where
  "Close_loop [] = Inr []"
| "Close_loop (sub # subs) =
     (case close sub of
        Inl p \<Rightarrow> Inl p
      | Inr sub' \<Rightarrow>
          (case Close_loop subs of
             Inl p \<Rightarrow> Inl p
           | Inr subs' \<Rightarrow> Inr (sub' # subs')))"

definition Close :: "ECSDeploymentStreamer \<Rightarrow> panic + ECSDeploymentStreamer" where
  "Close s =
     (case Close_loop (subscribers s) of
        Inl p \<Rightarrow> Inl p
      | Inr subs \<Rightarrow> Inr (s\<lparr>subscribers := subs\<rparr>))"

definition Done :: "ECSDeploymentStreamer \<Rightarrow> unit chan" where
  "Done s = done_ch s"

subsection \<open>Sequences of calls\<close>

text \<open>
  A caller's calls on one streamer, each \<open>Fetch\<close> with what the describe operation
  answered and the clock's reading; the interval constant is fixed for the run.
\<close>

datatype call = CallSubscribe | CallFetch "error + Service" Time | CallNotify | CallClose

fun step :: "int \<Rightarrow> call \<Rightarrow> ECSDeploymentStreamer \<Rightarrow> panic + ECSDeploymentStreamer" where
  "step iv CallSubscribe s = Inr (snd (Subscribe s))"
| "step iv (CallFetch described now) s =
     (case Fetch iv described now s of Inl p \<Rightarrow> Inl p | Inr (r, s') \<Rightarrow> Inr s')"
| "step iv CallNotify s = Notify s"
| "step iv CallClose s = Close s"

fun run :: "int \<Rightarrow> call list \<Rightarrow> ECSDeploymentStreamer \<Rightarrow> panic + ECSDeploymentStreamer" where
  "run iv [] s = Inr s"
| "run iv (c # cs) s = (case step iv c s of Inl p \<Rightarrow> Inl p | Inr s' \<Rightarrow> run iv cs s')"

subsection \<open>Notions the properties are stated with\<close>

text \<open>What the event loop reads of an event.\<close>

abbreviation event_id :: "ServiceEvent \<Rightarrow> string" where
  "event_id e \<equiv> StringValue (e_Id e)"

abbreviation event_msg :: "ServiceEvent \<Rightarrow> string" where
  "event_msg e \<equiv> StringValue (e_Message e)"

abbreviation event_created :: "ServiceEvent \<Rightarrow> Time" where
  "event_created e \<equiv> TimeValue (e_CreatedAt e)"

text \<open>The inverse of \<open>Split\<close>, \<open>strings.Join\<close> with a separator of one byte.\<close>

fun Join :: "string list \<Rightarrow> char \<Rightarrow> string" where
  "Join [] sep = []"
| "Join [p] sep = p"
| "Join (p # q # ps) sep = p @ sep # Join (q # ps) sep"

text \<open>
  The resource identifier format in the specification's words: the revision is the
  substring after the last \<open>:\<close> following the last \<open>/\<close>. \<open>after_last c s\<close> is the part
  of \<open>s\<close> after its last \<open>c\<close> (all of \<open>s\<close> when it has none).
\<close>

definition after_last :: "char \<Rightarrow> string \<Rightarrow> string" where
  "after_last c s = rev (takeWhile (\<lambda>x. x \<noteq> c) (rev s))"

definition revision_after_last_colon :: "string \<Rightarrow> string" where
  "revision_after_last_colon arn = after_last (CHR '':'') (after_last (CHR ''/'') arn)"

text \<open>
  An identifier of the shape \<open>...task-definition/<family>:<revision>\<close>: one \<open>/\<close>, and
  one \<open>:\<close> after it.
\<close>

definition TaskDefARN_wellformed :: "string \<Rightarrow> bool" where
  "TaskDefARN_wellformed arn =
     (count_list arn (CHR ''/'') = 1 \<and> count_list (after_last (CHR ''/'') arn) (CHR '':'') = 1)"

text \<open>The test of \<open>Fetch\<close> under which it closes \<open>done\<close>, as a predicate of the entry.\<close>

definition primary_completed :: "Deployment \<Rightarrow> bool" where
  "primary_completed d =
     (StringValue (d_Status d) = ecsPrimaryDeploymentStatus
      \<and> Int64Value (d_DesiredCount d) = Int64Value (d_RunningCount d))"

text \<open>
  The stop point of the event loop in the specification's words: the position of the
  first event that is created strictly before the deployment, or whose identifier is in
  the ledger, the ledger having grown by the identifiers of the events before it; the
  length of the list when there is no such event.
\<close>

fun stop_point :: "Time \<Rightarrow> string set \<Rightarrow> ServiceEvent list \<Rightarrow> nat" where
  "stop_point t ledger [] = 0"
| "stop_point t ledger (e # es) =
     (if Before (TimeValue (e_CreatedAt e)) t \<or> StringValue (e_Id e) \<in> ledger then 0
      else Suc (stop_point t (insert (StringValue (e_Id e)) ledger) es))"

subsection \<open>A worked poll\<close>

text \<open>
  A streamer created at time 10 and a describe result: the primary deployment with its
  three tasks running, and three events, newest first, the oldest from before the
  deployment. \<open>example_fetched\<close> is the streamer after one \<open>Fetch\<close> of it.
\<close>

definition example_arn :: string where
  "example_arn = ''arn:aws:ecs:us-west-2:1111:task-definition/webapp-test-frontend:3''"

definition example_primary :: Deployment where
  "example_primary =
     \<lparr>d_Status = Some ''PRIMARY'', d_TaskDefinition = Some example_arn,
      d_DesiredCount = Some 3, d_RunningCount = Some 3, d_FailedTasks = Some 0,
      d_PendingCount = Some 0, d_RolloutState = Some ''COMPLETED''\<rparr>"

definition example_events :: "ServiceEvent list" where
  "example_events =
     [\<lparr>e_CreatedAt = Some 30, e_Id = Some ''e3'', e_Message = Some ''service reached a steady state''\<rparr>,
      \<lparr>e_CreatedAt = Some 20, e_Id = Some ''e2'', e_Message = Some ''task failed to start''\<rparr>,
      \<lparr>e_CreatedAt = Some 5, e_Id = Some ''e1'', e_Message = Some ''unable to place a task''\<rparr>]"

definition example_service :: Service where
  "example_service = \<lparr>s_Deployments = [example_primary], s_Events = example_events\<rparr>"

definition example_streamer :: ECSDeploymentStreamer where
  "example_streamer = NewECSDeploymentStreamer ''cluster'' ''webapp'' 10"

definition example_fetched :: ECSDeploymentStreamer where
  "example_fetched =
     \<lparr>cluster = ''cluster'', service = ''webapp'', deploymentCreationTime = 10,
      subscribers = [], done_ch = \<lparr>ch_closed = True, ch_delivered = []\<rparr>,
      pastEventIDs = [''e3'' \<mapsto> True, ''e2'' \<mapsto> True],
      eventsToFlush =
        [\<lparr>Deployments =
            [\<lparr>Status = ''PRIMARY'', TaskDefRevision = ''3'', DesiredCount = 3, RunningCount = 3,
              FailedCount = 0, PendingCount = 0, RolloutState = ''COMPLETED''\<rparr>],
          LatestFailureEvents = [''task failed to start'']\<rparr>]\<rparr>"

text \<open>Two snapshots, and a streamer with two subscribers that has buffered them.\<close>

definition example_snapshot :: ECSService where
  "example_snapshot =
     \<lparr>Deployments =
        [\<lparr>Status = ''PRIMARY'', TaskDefRevision = ''3'', DesiredCount = 3, RunningCount = 2,
          FailedCount = 1, PendingCount = 0, RolloutState = ''IN_PROGRESS''\<rparr>],
      LatestFailureEvents = [''task failed to start'']\<rparr>"

definition example_quiet :: ECSService where
  "example_quiet =
     \<lparr>Deployments =
        [\<lparr>Status = ''PRIMARY'', TaskDefRevision = ''3'', DesiredCount = 3, RunningCount = 3,
          FailedCount = 1, PendingCount = 0, RolloutState = ''COMPLETED''\<rparr>],
      LatestFailureEvents = []\<rparr>"

definition example_buffered :: ECSDeploymentStreamer where
  "example_buffered =
     example_fetched\<lparr>subscribers := [make_chan, make_chan],
                     eventsToFlush := [example_snapshot, example_quiet]\<rparr>"

section \<open>Properties\<close>

subsection \<open>Split, Join and Contains\<close>

lemma Split_not_Nil: "Split s sep \<noteq> []"
  by (induction s) (auto split: list.splits)

lemma Split_no_sep: "sep \<notin> set s \<Longrightarrow> Split s sep = [s]"
  by (induction s) auto

lemma Split_append_sep: "sep \<notin> set a \<Longrightarrow> Split (a @ sep # b) sep = a # Split b sep"
  by (induction a) auto

lemma length_Split: "length (Split s sep) = Suc (count_list s sep)"
  by (induction s) (auto split: list.splits)

lemma Split_pieces: "p \<in> set (Split s sep) \<Longrightarrow> sep \<notin> set p"
  by (induction s arbitrary: p) (auto split: list.splits if_splits)

lemma Join_Cons_Cons: "Join ((a # p) # ps) sep = a # Join (p # ps) sep"
  by (cases ps) auto

lemma Join_Split: "Join (Split s sep) sep = s"
  by (induction s) (auto split: list.splits simp: Join_Cons_Cons)

lemma Split_Join:
  "ps \<noteq> [] \<Longrightarrow> \<forall>p\<in>set ps. sep \<notin> set p \<Longrightarrow> Split (Join ps sep) sep = ps"
proof (induction ps sep rule: Join.induct)
  case (1 sep)
  then show ?case by simp
next
  case (2 p sep)
  then show ?case by (simp add: Split_no_sep)
next
  case (3 p q ps sep)
  then show ?case by (simp add: Split_append_sep)
qed

lemma Contains_iff: "Contains s sub \<longleftrightarrow> (\<exists>ps ss. s = ps @ sub @ ss)"
proof (induction s)
  case Nil
  then show ?case by auto
next
  case (Cons c cs)
  show ?case
  proof
    assume "Contains (c # cs) sub"
    then consider "prefix sub (c # cs)" | "Contains cs sub" by auto
    then show "\<exists>ps ss. c # cs = ps @ sub @ ss"
    proof cases
      case 1
      then obtain ss where "c # cs = sub @ ss" by (auto simp: prefix_def)
      then have "c # cs = [] @ sub @ ss" by simp
      then show ?thesis by blast
    next
      case 2
      with Cons obtain ps ss where "cs = ps @ sub @ ss" by auto
      then have "c # cs = (c # ps) @ sub @ ss" by simp
      then show ?thesis by blast
    qed
  next
    assume "\<exists>ps ss. c # cs = ps @ sub @ ss"
    then obtain ps ss where e: "c # cs = ps @ sub @ ss" by blast
    show "Contains (c # cs) sub"
    proof (cases ps)
      case Nil
      with e have "prefix sub (c # cs)" by (auto simp: prefix_def)
      then show ?thesis by simp
    next
      case (Cons p ps')
      with e have "cs = ps' @ sub @ ss" by simp
      with Cons.IH have "Contains cs sub" by blast
      then show ?thesis by simp
    qed
  qed
qed

lemma after_last_append: "c \<notin> set b \<Longrightarrow> after_last c (a @ c # b) = b"
proof -
  assume b: "c \<notin> set b"
  have "takeWhile (\<lambda>x. x \<noteq> c) (rev b @ c # rev a) = takeWhile (\<lambda>x. x \<noteq> c) (rev b)"
    by (simp add: takeWhile_tail)
  also have "\<dots> = rev b"
    using b by (auto simp: takeWhile_eq_all_conv)
  finally show ?thesis by (simp add: after_last_def)
qed

lemma count_one_split:
  assumes "count_list s c = 1"
  shows "\<exists>a b. s = a @ c # b \<and> c \<notin> set a \<and> c \<notin> set b"
proof -
  from assms have "c \<in> set s" by (metis count_list_0_iff zero_neq_one)
  then obtain a b where s: "s = a @ c # b" and a: "c \<notin> set a"
    by (meson split_list_first)
  with assms have "count_list b c = 0" by (simp add: count_list_0_iff)
  then have "c \<notin> set b" by (simp add: count_list_0_iff)
  with s a show ?thesis by blast
qed

text \<open>
  A well-formed identifier splits into two pieces at its \<open>/\<close>, the second into two
  pieces at its \<open>:\<close>, and the last piece is what follows the last \<open>:\<close> after the last
  \<open>/\<close>.
\<close>

lemma wellformed_pieces:
  assumes "TaskDefARN_wellformed arn"
  shows "\<exists>a f r. Split arn (CHR ''/'') = [a, f @ CHR '':'' # r]
           \<and> Split (f @ CHR '':'' # r) (CHR '':'') = [f, r]
           \<and> revision_after_last_colon arn = r"
proof -
  from assms have c1: "count_list arn (CHR ''/'') = 1"
    and c2: "count_list (after_last (CHR ''/'') arn) (CHR '':'') = 1"
    by (simp_all add: TaskDefARN_wellformed_def)
  from count_one_split [OF c1] obtain a b
    where arn: "arn = a @ CHR ''/'' # b" and a: "CHR ''/'' \<notin> set a" and b: "CHR ''/'' \<notin> set b"
    by blast
  have al: "after_last (CHR ''/'') arn = b"
    using arn b by (simp add: after_last_append)
  from count_one_split [OF c2] al obtain f r
    where fam: "b = f @ CHR '':'' # r" and f: "CHR '':'' \<notin> set f" and r: "CHR '':'' \<notin> set r"
    by auto
  have s1: "Split arn (CHR ''/'') = [a, b]"
    using arn a b by (simp add: Split_append_sep Split_no_sep)
  have s2: "Split b (CHR '':'') = [f, r]"
    using fam f r by (simp add: Split_append_sep Split_no_sep)
  have "after_last (CHR '':'') b = r"
    using fam r by (simp add: after_last_append)
  with s1 s2 al fam show ?thesis
    by (auto simp: revision_after_last_colon_def)
qed

lemma wellformed_parses:
  assumes "TaskDefARN_wellformed arn"
  shows "parseRevisionFromTaskDefARN arn = Inr (revision_after_last_colon arn)"
proof -
  from wellformed_pieces [OF assms] obtain a f r
    where "Split arn (CHR ''/'') = [a, f @ CHR '':'' # r]"
      and "Split (f @ CHR '':'' # r) (CHR '':'') = [f, r]"
      and "revision_after_last_colon arn = r"
    by blast
  then show ?thesis
    by (simp add: parseRevisionFromTaskDefARN_def index_def)
qed

subsection \<open>The describe call fails\<close>

text \<open>
  Claim C5. When the describe operation returns an error, \<open>Fetch\<close> returns an error
  that wraps it (its \<open>Unwrap\<close> is the cause, its message the cause's message behind
  the prefix), the zero time, and the receiver as it was: the ledger, the buffered
  snapshots, the completion signal and the subscriber list are all unchanged.
\<close>

theorem Fetch_describe_error_atomic:
  "Fetch iv (Inl cause) now s
     = Inr ((0, Some (Errorf_w ''fetch service description: '' cause)), s)
   \<and> Unwrap (Errorf_w ''fetch service description: '' cause) = Some cause
   \<and> Error (Errorf_w ''fetch service description: '' cause)
       = ''fetch service description: '' @ Error cause"
  by (simp add: Fetch_def)

subsection \<open>The revision of a task definition\<close>

text \<open>
  Claim C7. The parser splits the identifier on \<open>/\<close> and takes the second segment,
  the family segment; it splits that on \<open>:\<close> and takes the second component as the
  revision. So for an identifier made of at least two segments joined by \<open>/\<close>, the
  second made of at least two components joined by \<open>:\<close>, the result is the second
  component of the second segment, whatever comes before and after. An identifier
  without \<open>/\<close>, or whose second segment has no \<open>:\<close>, is an index out of range. The
  identifier \<open>arn:aws:ecs:us-west-2:1111:task-definition/webapp-test-frontend:3\<close> gives
  \<open>3\<close>.
\<close>

theorem parseRevision_second_of_second:
  "((\<forall>seg\<in>set segs. CHR ''/'' \<notin> set seg) \<and> (\<forall>c\<in>set comps. CHR '':'' \<notin> set c)
      \<and> 1 < length segs \<and> 1 < length comps \<and> segs ! 1 = Join comps (CHR '':'') \<longrightarrow>
      parseRevisionFromTaskDefARN (Join segs (CHR ''/'')) = Inr (comps ! 1))
   \<and> (CHR ''/'' \<notin> set arn \<longrightarrow> parseRevisionFromTaskDefARN arn = Inl IndexOutOfRange)
   \<and> ((\<forall>seg\<in>set segs. CHR ''/'' \<notin> set seg) \<and> 1 < length segs
        \<and> CHR '':'' \<notin> set (segs ! 1) \<longrightarrow>
        parseRevisionFromTaskDefARN (Join segs (CHR ''/'')) = Inl IndexOutOfRange)
   \<and> parseRevisionFromTaskDefARN arn =
       (case Split arn (CHR ''/'') of
          _ # familyName # _ \<Rightarrow>
            (case Split familyName (CHR '':'') of
               _ # revision # _ \<Rightarrow> Inr revision
             | _ \<Rightarrow> Inl IndexOutOfRange)
        | _ \<Rightarrow> Inl IndexOutOfRange)
   \<and> parseRevisionFromTaskDefARN
         ''arn:aws:ecs:us-west-2:1111:task-definition/webapp-test-frontend:3'' = Inr ''3''"
proof (intro conjI impI)
  assume h: "(\<forall>seg\<in>set segs. CHR ''/'' \<notin> set seg) \<and> (\<forall>c\<in>set comps. CHR '':'' \<notin> set c)
      \<and> 1 < length segs \<and> 1 < length comps \<and> segs ! 1 = Join comps (CHR '':'')"
  then have s1: "Split (Join segs (CHR ''/'')) (CHR ''/'') = segs"
    by (intro Split_Join) auto
  from h have s2: "Split (segs ! 1) (CHR '':'') = comps"
    by (auto intro: Split_Join)
  from h s1 s2 show "parseRevisionFromTaskDefARN (Join segs (CHR ''/'')) = Inr (comps ! 1)"
    by (simp add: parseRevisionFromTaskDefARN_def index_def)
next
  assume "CHR ''/'' \<notin> set arn"
  then show "parseRevisionFromTaskDefARN arn = Inl IndexOutOfRange"
    by (simp add: parseRevisionFromTaskDefARN_def index_def Split_no_sep)
next
  assume h: "(\<forall>seg\<in>set segs. CHR ''/'' \<notin> set seg) \<and> 1 < length segs
        \<and> CHR '':'' \<notin> set (segs ! 1)"
  then have s1: "Split (Join segs (CHR ''/'')) (CHR ''/'') = segs"
    by (intro Split_Join) auto
  from h s1 show "parseRevisionFromTaskDefARN (Join segs (CHR ''/'')) = Inl IndexOutOfRange"
    by (simp add: parseRevisionFromTaskDefARN_def index_def Split_no_sep)
next
  show "parseRevisionFromTaskDefARN arn =
       (case Split arn (CHR ''/'') of
          _ # familyName # _ \<Rightarrow>
            (case Split familyName (CHR '':'') of
               _ # revision # _ \<Rightarrow> Inr revision
             | _ \<Rightarrow> Inl IndexOutOfRange)
        | _ \<Rightarrow> Inl IndexOutOfRange)"
    by (auto simp: parseRevisionFromTaskDefARN_def index_def split: list.splits)
next
  show "parseRevisionFromTaskDefARN
         ''arn:aws:ecs:us-west-2:1111:task-definition/webapp-test-frontend:3'' = Inr ''3''"
    by (simp add: parseRevisionFromTaskDefARN_def index_def)
qed

theorem parseRevision_second_of_second_witness:
  "Join [''arn:aws:ecs:us-west-2:1111:task-definition'', ''webapp-test-frontend:3''] (CHR ''/'')
     = ''arn:aws:ecs:us-west-2:1111:task-definition/webapp-test-frontend:3''
   \<and> Join [''webapp-test-frontend'', ''3''] (CHR '':'') = ''webapp-test-frontend:3''
   \<and> parseRevisionFromTaskDefARN
         (Join [''arn:aws:ecs:us-west-2:1111:task-definition'', ''webapp-test-frontend:3'']
            (CHR ''/'')) = Inr ''3''
   \<and> parseRevisionFromTaskDefARN ''webapp-test-frontend:3'' = Inl IndexOutOfRange
   \<and> parseRevisionFromTaskDefARN
         (Join [''task-definition'', ''webapp-test-frontend''] (CHR ''/'')) = Inl IndexOutOfRange"
proof -
  have a: "parseRevisionFromTaskDefARN
         (Join [''arn:aws:ecs:us-west-2:1111:task-definition'', ''webapp-test-frontend:3'']
            (CHR ''/'')) = Inr ([''webapp-test-frontend'', ''3''] ! 1)"
    using parseRevision_second_of_second [of "[''arn:aws:ecs:us-west-2:1111:task-definition'', ''webapp-test-frontend:3'']"
               "[''webapp-test-frontend'', ''3'']"]
    by simp
  have b: "parseRevisionFromTaskDefARN ''webapp-test-frontend:3'' = Inl IndexOutOfRange"
    using parseRevision_second_of_second [of _ _ "''webapp-test-frontend:3''"] by simp
  have c: "parseRevisionFromTaskDefARN
         (Join [''task-definition'', ''webapp-test-frontend''] (CHR ''/'')) = Inl IndexOutOfRange"
    using parseRevision_second_of_second [of "[''task-definition'', ''webapp-test-frontend'']"] by simp
  from a b c show ?thesis by simp
qed

text \<open>
  Claim C6. For every task-definition identifier, a string of the format
  \<open>...task-definition/<family>:<revision>\<close> with its one \<open>/\<close> and one \<open>:\<close> after it,
  the revision the parser returns is the substring after the last \<open>:\<close> following the
  last \<open>/\<close>.
\<close>

theorem parseRevision_wellformed:
  "TaskDefARN_wellformed arn \<Longrightarrow>
     parseRevisionFromTaskDefARN arn = Inr (revision_after_last_colon arn)"
  by (rule wellformed_parses)

theorem parseRevision_wellformed_witness:
  "TaskDefARN_wellformed ''arn:aws:ecs:us-west-2:1111:task-definition/webapp-test-frontend:3''
   \<and> parseRevisionFromTaskDefARN
         ''arn:aws:ecs:us-west-2:1111:task-definition/webapp-test-frontend:3''
       = Inr (revision_after_last_colon
                ''arn:aws:ecs:us-west-2:1111:task-definition/webapp-test-frontend:3'')"
proof -
  have wf: "TaskDefARN_wellformed
              ''arn:aws:ecs:us-west-2:1111:task-definition/webapp-test-frontend:3''"
    by (simp add: TaskDefARN_wellformed_def after_last_def)
  from wf parseRevision_wellformed [OF wf] show ?thesis by simp
qed

subsection \<open>The worked poll, evaluated\<close>

lemma isFailure_ex: "isFailureServiceEvent ''task failed to start''"
  "\<not> isFailureServiceEvent ''service reached a steady state''"
  "\<not> isFailureServiceEvent ''TASK FAILED''"
  by (simp_all add: isFailureServiceEvent_def ecsEventFailureKeywords_def)

lemma example_parse: "parseRevisionFromTaskDefARN example_arn = Inr ''3''"
  by (simp add: example_arn_def parseRevisionFromTaskDefARN_def index_def)

lemma example_Fetch_deployment:
  "Fetch_deployment example_primary [] make_chan =
     Inr ([\<lparr>Status = ''PRIMARY'', TaskDefRevision = ''3'', DesiredCount = 3, RunningCount = 3,
              FailedCount = 0, PendingCount = 0, RolloutState = ''COMPLETED''\<rparr>],
          \<lparr>ch_closed = True, ch_delivered = []\<rparr>)"
  by (simp add: Fetch_deployment_def example_primary_def example_parse StringValue_def
        Int64Value_def ecsPrimaryDeploymentStatus_def close_def make_chan_def)

lemma example_Fetch_events:
  "Fetch_events 10 example_events [] Map.empty =
     ([''task failed to start''], [''e3'' \<mapsto> True, ''e2'' \<mapsto> True])"
  by (simp add: example_events_def Before_def TimeValue_def StringValue_def isFailure_ex)

lemma example_Fetch:
  "Fetch 5 (Inr example_service) 100 example_streamer = Inr ((105, None), example_fetched)"
  by (simp add: Fetch_def example_service_def example_streamer_def NewECSDeploymentStreamer_def
        example_Fetch_deployment example_Fetch_events example_fetched_def)


lemma example_wellformed: "TaskDefARN_wellformed example_arn"
  by (simp add: example_arn_def TaskDefARN_wellformed_def after_last_def)

lemma example_primary_completed: "primary_completed example_primary"
  by (simp add: primary_completed_def example_primary_def StringValue_def Int64Value_def
        ecsPrimaryDeploymentStatus_def)

lemma example_Fetch_again:
  "Fetch 5 (Inr example_service) 105 example_fetched = Inl CloseOfClosedChannel"
proof -
  have "Fetch_deployment example_primary [] \<lparr>ch_closed = True, ch_delivered = []\<rparr>
          = Inl CloseOfClosedChannel"
    by (simp add: Fetch_deployment_def example_primary_def example_parse StringValue_def
          Int64Value_def ecsPrimaryDeploymentStatus_def close_def)
  then show ?thesis
    by (simp add: Fetch_def example_service_def example_fetched_def)
qed

subsection \<open>The event loop\<close>

lemma stop_point_le: "stop_point t L es \<le> length es"
  by (induction es arbitrary: L) auto

lemma stop_point_before:
  "i < stop_point t L es \<Longrightarrow>
     \<not> Before (event_created (es ! i)) t
   \<and> event_id (es ! i) \<notin> L \<union> set (map event_id (take i es))"
proof (induction es arbitrary: L i)
  case Nil
  then show ?case by simp
next
  case (Cons e es)
  from Cons.prems have ns: "\<not> Before (event_created e) t" "event_id e \<notin> L"
    by (auto split: if_splits)
  show ?case
  proof (cases i)
    case 0
    with ns show ?thesis by simp
  next
    case (Suc j)
    with Cons.prems ns have "j < stop_point t (insert (event_id e) L) es" by simp
    from Cons.IH [OF this] Suc show ?thesis by auto
  qed
qed

lemma stop_point_at:
  "stop_point t L es < length es \<Longrightarrow>
     Before (event_created (es ! stop_point t L es)) t
   \<or> event_id (es ! stop_point t L es)
        \<in> L \<union> set (map event_id (take (stop_point t L es) es))"
proof (induction es arbitrary: L)
  case Nil
  then show ?case by simp
next
  case (Cons e es)
  show ?case
  proof (cases "Before (event_created e) t \<or> event_id e \<in> L")
    case True
    then show ?thesis by auto
  next
    case False
    with Cons.prems have "stop_point t (insert (event_id e) L) es < length es" by simp
    from Cons.IH [OF this] False show ?thesis by auto
  qed
qed

lemma Fetch_events_eq:
  "Fetch_events t es msgs past =
     (msgs @ filter isFailureServiceEvent
               (map event_msg (take (stop_point t (dom past) es) es)),
      (\<lambda>id. if id \<in> set (map event_id (take (stop_point t (dom past) es) es))
            then Some True else past id))"
proof (induction es arbitrary: msgs past)
  case Nil
  then show ?case by simp
next
  case (Cons e es)
  show ?case
  proof (cases "Before (event_created e) t \<or> event_id e \<in> dom past")
    case True
    then show ?thesis by (auto simp: Let_def)
  next
    case False
    then have nb: "\<not> Before (event_created e) t" and np: "past (event_id e) = None"
      by auto
    have d: "dom (past(event_id e \<mapsto> True)) = insert (event_id e) (dom past)"
      by simp
    show ?thesis
      using nb np False
      by (simp add: Let_def Cons.IH d del: dom_fun_upd fun_upd_apply) (auto simp: fun_eq_iff)
  qed
qed

lemma Fetch_Inr:
  assumes "Fetch iv (Inr out) now s = Inr (r, s')"
  shows "\<exists>deployments dn.
           Fetch_deployments (s_Deployments out) [] (done_ch s) = Inr (deployments, dn)
         \<and> r = (now + iv, None)
         \<and> s' = s\<lparr>done_ch := dn,
                  pastEventIDs :=
                    snd (Fetch_events (deploymentCreationTime s) (s_Events out) [] (pastEventIDs s)),
                  eventsToFlush := eventsToFlush s @
                    [\<lparr>Deployments = deployments,
                      LatestFailureEvents =
                        fst (Fetch_events (deploymentCreationTime s) (s_Events out) []
                               (pastEventIDs s))\<rparr>]\<rparr>"
  using assms by (auto simp: Fetch_def split: sum.splits prod.splits)

lemma isFailureServiceEvent_loop_iff:
  "isFailureServiceEvent_loop msg kws \<longleftrightarrow> (\<exists>kw\<in>set kws. Contains msg kw)"
  by (induction kws) auto

text \<open>
  Claim C2. After a successful \<open>Fetch\<close> there is a stop point \<open>k\<close> in the event list
  returned by the describe operation: no event before \<open>k\<close> is created strictly before
  the deployment or has its identifier in the ledger (as grown by the events before
  it), the event at \<open>k\<close>, when there is one, is the first that is or has; the ledger
  after the call is the ledger before it with exactly the identifiers of the events
  before \<open>k\<close> recorded, and the failure messages of the snapshot come from the events
  before \<open>k\<close> only, in their order. So nothing at or after the stop point is recorded
  or reported.
\<close>

theorem Fetch_events_stop:
  assumes "Fetch iv (Inr out) now s = Inr (r, s')"
  shows "\<exists>k\<le>length (s_Events out).
           (\<forall>i<k. \<not> Before (event_created (s_Events out ! i)) (deploymentCreationTime s)
                 \<and> event_id (s_Events out ! i)
                     \<notin> dom (pastEventIDs s) \<union> set (map event_id (take i (s_Events out))))
         \<and> (k < length (s_Events out) \<longrightarrow>
               Before (event_created (s_Events out ! k)) (deploymentCreationTime s)
             \<or> event_id (s_Events out ! k)
                 \<in> dom (pastEventIDs s) \<union> set (map event_id (take k (s_Events out))))
         \<and> dom (pastEventIDs s')
             = dom (pastEventIDs s) \<union> set (map event_id (take k (s_Events out)))
         \<and> (\<forall>id. pastEventIDs s' id
                  = (if id \<in> set (map event_id (take k (s_Events out))) then Some True
                     else pastEventIDs s id))
         \<and> LatestFailureEvents (last (eventsToFlush s'))
             = filter isFailureServiceEvent (map event_msg (take k (s_Events out)))"
proof -
  let ?t = "deploymentCreationTime s" and ?es = "s_Events out" and ?L = "dom (pastEventIDs s)"
  let ?k = "stop_point ?t ?L ?es"
  from Fetch_Inr [OF assms] obtain deployments dn where
    s': "s' = s\<lparr>done_ch := dn,
                pastEventIDs := snd (Fetch_events ?t ?es [] (pastEventIDs s)),
                eventsToFlush := eventsToFlush s @
                  [\<lparr>Deployments = deployments,
                    LatestFailureEvents = fst (Fetch_events ?t ?es [] (pastEventIDs s))\<rparr>]\<rparr>"
    by blast
  have past: "pastEventIDs s' =
      (\<lambda>id. if id \<in> set (map event_id (take ?k ?es)) then Some True else pastEventIDs s id)"
    by (simp add: s' Fetch_events_eq)
  have msgs: "LatestFailureEvents (last (eventsToFlush s'))
      = filter isFailureServiceEvent (map event_msg (take ?k ?es))"
    by (simp add: s' Fetch_events_eq)
  have dm: "dom (pastEventIDs s') = ?L \<union> set (map event_id (take ?k ?es))"
    unfolding past by (auto simp: dom_def)
  have b: "\<forall>i<?k. \<not> Before (event_created (?es ! i)) ?t
                 \<and> event_id (?es ! i) \<notin> ?L \<union> set (map event_id (take i ?es))"
    using stop_point_before by blast
  have a: "?k < length ?es \<longrightarrow>
               Before (event_created (?es ! ?k)) ?t
             \<or> event_id (?es ! ?k) \<in> ?L \<union> set (map event_id (take ?k ?es))"
    using stop_point_at by blast
  from stop_point_le [of ?t ?L ?es] b a dm past msgs show ?thesis
    by (intro exI [of _ ?k]) simp
qed

theorem Fetch_events_stop_witness:
  "Fetch 5 (Inr example_service) 100 example_streamer = Inr ((105, None), example_fetched)
   \<and> (\<exists>k\<le>3. Before (event_created (example_events ! k)) 10
          \<and> dom (pastEventIDs example_fetched) = set (map event_id (take k example_events))
          \<and> LatestFailureEvents (last (eventsToFlush example_fetched))
              = filter isFailureServiceEvent (map event_msg (take k example_events)))"
proof -
  have "\<exists>k\<le>3. Before (event_created (example_events ! k)) 10
          \<and> dom (pastEventIDs example_fetched) = set (map event_id (take k example_events))
          \<and> LatestFailureEvents (last (eventsToFlush example_fetched))
              = filter isFailureServiceEvent (map event_msg (take k example_events))"
    by (intro exI [of _ 2])
       (auto simp: example_fetched_def example_events_def Before_def TimeValue_def
          StringValue_def isFailure_ex)
  with example_Fetch Fetch_events_stop [OF example_Fetch] show ?thesis by simp
qed


text \<open>
  Claim C8. A message is a failure exactly when one of the six keywords \<open>fail\<close>,
  \<open>unhealthy\<close>, \<open>error\<close>, \<open>throttle\<close>, \<open>unable\<close>, \<open>missing\<close> occurs in it as a
  contiguous substring, byte for byte. A successful \<open>Fetch\<close> appends one snapshot, and
  its failure messages are the messages so classified among the events the loop
  processed (those before the stop point), in their order.
\<close>

theorem isFailureServiceEvent_keywords:
  "(isFailureServiceEvent msg \<longleftrightarrow>
      (\<exists>kw\<in>{''fail'', ''unhealthy'', ''error'', ''throttle'', ''unable'', ''missing''}.
         \<exists>ps ss. msg = ps @ kw @ ss))
   \<and> (Fetch iv (Inr out) now s = Inr (r, s') \<longrightarrow>
        eventsToFlush s' = eventsToFlush s @ [last (eventsToFlush s')]
      \<and> LatestFailureEvents (last (eventsToFlush s'))
          = filter isFailureServiceEvent
              (map event_msg
                 (take (stop_point (deploymentCreationTime s) (dom (pastEventIDs s)) (s_Events out))
                    (s_Events out))))"
proof (intro conjI impI)
  show "isFailureServiceEvent msg \<longleftrightarrow>
      (\<exists>kw\<in>{''fail'', ''unhealthy'', ''error'', ''throttle'', ''unable'', ''missing''}.
         \<exists>ps ss. msg = ps @ kw @ ss)"
    unfolding isFailureServiceEvent_def isFailureServiceEvent_loop_iff Contains_iff
      ecsEventFailureKeywords_def
    by simp
next
  assume f: "Fetch iv (Inr out) now s = Inr (r, s')"
  from Fetch_Inr [OF f] show "eventsToFlush s' = eventsToFlush s @ [last (eventsToFlush s')]"
    by auto
  from Fetch_Inr [OF f] show "LatestFailureEvents (last (eventsToFlush s'))
          = filter isFailureServiceEvent
              (map event_msg
                 (take (stop_point (deploymentCreationTime s) (dom (pastEventIDs s)) (s_Events out))
                    (s_Events out)))"
    by (auto simp: Fetch_events_eq)
qed

theorem isFailureServiceEvent_keywords_witness:
  "isFailureServiceEvent ''task failed to start''
   \<and> \<not> isFailureServiceEvent ''TASK FAILED''
   \<and> Fetch 5 (Inr example_service) 100 example_streamer = Inr ((105, None), example_fetched)
   \<and> stop_point 10 {} example_events = 2
   \<and> LatestFailureEvents (last (eventsToFlush example_fetched)) = [''task failed to start'']"
proof -
  have sp: "stop_point 10 {} example_events = 2"
    by (simp add: example_events_def Before_def TimeValue_def StringValue_def)
  have d: "dom (pastEventIDs example_streamer) = {}"
    "deploymentCreationTime example_streamer = 10"
    "s_Events example_service = example_events"
    by (simp_all add: example_streamer_def NewECSDeploymentStreamer_def example_service_def)
  have m: "filter isFailureServiceEvent (map event_msg (take 2 example_events))
             = [''task failed to start'']"
    by (simp add: example_events_def StringValue_def isFailure_ex)
  from isFailureServiceEvent_keywords
         [of "''task failed to start''" 5 example_service 100 example_streamer
             "(105, None)" example_fetched]
       example_Fetch
  have "LatestFailureEvents (last (eventsToFlush example_fetched)) = [''task failed to start'']"
    by (simp add: d sp m)
  with example_Fetch sp isFailure_ex show ?thesis by simp
qed


subsection \<open>The completion signal\<close>

lemma Fetch_deployment_Inr:
  assumes "Fetch_deployment d acc dn = Inr (acc', dn')"
  shows "(primary_completed d \<longrightarrow> \<not> ch_closed dn \<and> dn' = dn\<lparr>ch_closed := True\<rparr>)
       \<and> (\<not> primary_completed d \<longrightarrow> dn' = dn) \<and> length acc' = Suc (length acc)"
  using assms
  by (auto simp: Fetch_deployment_def primary_completed_def close_def Let_def
           split: sum.splits if_splits)

lemma Fetch_deployments_Inr:
  "Fetch_deployments ds acc dn = Inr (acc', dn') \<Longrightarrow>
     ch_closed dn' = (ch_closed dn \<or> (\<exists>d\<in>set ds. primary_completed d))
   \<and> (ch_closed dn \<longrightarrow> \<not> (\<exists>d\<in>set ds. primary_completed d))
   \<and> length (filter primary_completed ds) \<le> 1
   \<and> ch_delivered dn' = ch_delivered dn
   \<and> length acc' = length acc + length ds"
proof (induction ds arbitrary: acc dn)
  case Nil
  then show ?case by simp
next
  case (Cons d ds)
  from Cons.prems obtain acc1 dn1 where
    one: "Fetch_deployment d acc dn = Inr (acc1, dn1)"
    and rest: "Fetch_deployments ds acc1 dn1 = Inr (acc', dn')"
    by (auto split: sum.splits)
  note h = Fetch_deployment_Inr [OF one]
  note ih = Cons.IH [OF rest]
  show ?case
  proof (cases "primary_completed d")
    case True
    with h have "\<not> ch_closed dn" "ch_closed dn1" "ch_delivered dn1 = ch_delivered dn" by auto
    with ih h True show ?thesis by auto
  next
    case False
    with h have "dn1 = dn" by simp
    with ih h False show ?thesis by auto
  qed
qed

lemma Fetch_deployment_wellformed:
  assumes "TaskDefARN_wellformed (StringValue (d_TaskDefinition d))"
  shows "\<exists>acc'. Fetch_deployment d acc dn =
           (if primary_completed d
            then (if ch_closed dn then Inl CloseOfClosedChannel
                  else Inr (acc', dn\<lparr>ch_closed := True\<rparr>))
            else Inr (acc', dn))"
  using wellformed_parses [OF assms]
  by (auto simp: Fetch_deployment_def primary_completed_def close_def Let_def)

lemma Fetch_deployments_total:
  "\<forall>d\<in>set ds. TaskDefARN_wellformed (StringValue (d_TaskDefinition d)) \<Longrightarrow>
   length (filter primary_completed ds) \<le> (if ch_closed dn then 0 else 1) \<Longrightarrow>
   \<exists>acc' dn'. Fetch_deployments ds acc dn = Inr (acc', dn')"
proof (induction ds arbitrary: acc dn)
  case Nil
  then show ?case by simp
next
  case (Cons d ds)
  from Cons.prems(1) have wf: "TaskDefARN_wellformed (StringValue (d_TaskDefinition d))"
    by simp
  show ?case
  proof (cases "primary_completed d")
    case True
    with Cons.prems(2) have op: "\<not> ch_closed dn" and none: "length (filter primary_completed ds) = 0"
      by (auto split: if_splits)
    from Fetch_deployment_wellformed [OF wf, of acc dn] True op obtain acc1 where
      one: "Fetch_deployment d acc dn = Inr (acc1, dn\<lparr>ch_closed := True\<rparr>)"
      by auto
    from none have "length (filter primary_completed ds) \<le> (if ch_closed (dn\<lparr>ch_closed := True\<rparr>) then 0 else 1)"
      by simp
    with Cons.IH [of "dn\<lparr>ch_closed := True\<rparr>" acc1] Cons.prems(1) one show ?thesis
      by auto
  next
    case False
    with Fetch_deployment_wellformed [OF wf, of acc dn] obtain acc1 where
      one: "Fetch_deployment d acc dn = Inr (acc1, dn)"
      by auto
    from False Cons.prems(2) have "length (filter primary_completed ds) \<le> (if ch_closed dn then 0 else 1)"
      by simp
    with Cons.IH [of dn acc1] Cons.prems(1) one show ?thesis
      by auto
  qed
qed

lemma Fetch_deployments_double_close:
  "\<forall>d\<in>set ds. TaskDefARN_wellformed (StringValue (d_TaskDefinition d)) \<Longrightarrow>
   (if ch_closed dn then 0 else 1) < length (filter primary_completed ds) \<Longrightarrow>
   Fetch_deployments ds acc dn = Inl CloseOfClosedChannel"
proof (induction ds arbitrary: acc dn)
  case Nil
  then show ?case by simp
next
  case (Cons d ds)
  from Cons.prems(1) have wf: "TaskDefARN_wellformed (StringValue (d_TaskDefinition d))"
    by simp
  show ?case
  proof (cases "primary_completed d")
    case True
    show ?thesis
    proof (cases "ch_closed dn")
      case True
      with Fetch_deployment_wellformed [OF wf, of acc dn] \<open>primary_completed d\<close>
      show ?thesis by auto
    next
      case False
      with Fetch_deployment_wellformed [OF wf, of acc dn] True obtain acc1 where
        one: "Fetch_deployment d acc dn = Inr (acc1, dn\<lparr>ch_closed := True\<rparr>)"
        by auto
      from False True Cons.prems(2)
      have "(if ch_closed (dn\<lparr>ch_closed := True\<rparr>) then 0 else 1) < length (filter primary_completed ds)"
        by simp
      with Cons.IH [of "dn\<lparr>ch_closed := True\<rparr>" acc1] Cons.prems(1) one show ?thesis
        by auto
    qed
  next
    case False
    with Fetch_deployment_wellformed [OF wf, of acc dn] obtain acc1 where
      one: "Fetch_deployment d acc dn = Inr (acc1, dn)"
      by auto
    from False Cons.prems(2) have "(if ch_closed dn then 0 else 1) < length (filter primary_completed ds)"
      by simp
    with Cons.IH [of dn acc1] Cons.prems(1) one show ?thesis
      by auto
  qed
qed

lemma Fetch_done:
  assumes "Fetch iv described now s = Inr (r, s')"
  shows "ch_closed (done_ch s) \<longrightarrow> ch_closed (done_ch s')"
proof (cases described)
  case (Inl e)
  with assms show ?thesis by (simp add: Fetch_def)
next
  case (Inr out)
  with assms Fetch_Inr [of iv out now s r s'] obtain deployments dn where
    "Fetch_deployments (s_Deployments out) [] (done_ch s) = Inr (deployments, dn)"
    and "done_ch s' = dn"
    by auto
  with Fetch_deployments_Inr show ?thesis by blast
qed

lemma Notify_fields:
  "Notify s = Inr s' \<Longrightarrow> done_ch s' = done_ch s \<and> pastEventIDs s' = pastEventIDs s"
  by (auto simp: Notify_def split: sum.splits)

lemma Close_fields:
  "Close s = Inr s' \<Longrightarrow> done_ch s' = done_ch s \<and> pastEventIDs s' = pastEventIDs s"
  by (auto simp: Close_def split: sum.splits)

lemma step_done:
  "step iv c s = Inr s' \<Longrightarrow> ch_closed (done_ch s) \<longrightarrow> ch_closed (done_ch s')"
proof (cases c)
  case CallSubscribe
  assume "step iv c s = Inr s'"
  with CallSubscribe show ?thesis by (auto simp: Subscribe_def)
next
  case (CallFetch described now)
  assume "step iv c s = Inr s'"
  with CallFetch obtain r where "Fetch iv described now s = Inr (r, s')"
    by (auto split: sum.splits)
  then show ?thesis by (rule Fetch_done)
next
  case CallNotify
  assume "step iv c s = Inr s'"
  with CallNotify show ?thesis by (auto dest: Notify_fields)
next
  case CallClose
  assume "step iv c s = Inr s'"
  with CallClose show ?thesis by (auto dest: Close_fields)
qed

lemma run_done:
  "run iv calls s = Inr s' \<Longrightarrow> ch_closed (done_ch s) \<Longrightarrow> ch_closed (done_ch s')"
proof (induction calls arbitrary: s)
  case Nil
  then show ?case by simp
next
  case (Cons c calls)
  from Cons.prems(1) obtain s1 where
    one: "step iv c s = Inr s1" and rest: "run iv calls s1 = Inr s'"
    by (auto split: sum.splits)
  from step_done [OF one] Cons.prems(2) have "ch_closed (done_ch s1)" by simp
  with Cons.IH [OF rest] show ?case by simp
qed


text \<open>
  Claim C1, as amended. Over every sequence of calls on a streamer the completion signal,
  once signaled, stays signaled, so it goes from open to signaled at most once. A
  \<open>Fetch\<close> that returns leaves it signaled exactly when it was signaled before or the
  describe result has a deployment with status \<open>PRIMARY\<close> and desired count equal to
  running count. While the signal is open, a \<open>Fetch\<close> of a result with well-formed
  identifiers and at most one such deployment returns without error or panic. (The
  close is not guarded: nothing is promised for a \<open>Fetch\<close> that observes such a
  deployment once the signal is signaled.)
\<close>

theorem done_signaled_once:
  "(run iv calls s = Inr s' \<longrightarrow> ch_closed (done_ch s) \<longrightarrow> ch_closed (done_ch s'))
   \<and> (Fetch iv (Inr out) now s = Inr (r, s1) \<longrightarrow>
        ch_closed (done_ch s1)
          = (ch_closed (done_ch s) \<or> (\<exists>d\<in>set (s_Deployments out). primary_completed d)))
   \<and> ((\<forall>d\<in>set (s_Deployments out). TaskDefARN_wellformed (StringValue (d_TaskDefinition d)))
        \<and> \<not> ch_closed (done_ch s)
        \<and> length (filter primary_completed (s_Deployments out)) \<le> 1 \<longrightarrow>
        (\<exists>s2. Fetch iv (Inr out) now s = Inr ((now + iv, None), s2)))"
proof (intro conjI impI)
  assume "run iv calls s = Inr s'" and "ch_closed (done_ch s)"
  then show "ch_closed (done_ch s')" by (rule run_done)
next
  assume f: "Fetch iv (Inr out) now s = Inr (r, s1)"
  from Fetch_Inr [OF f] obtain deployments dn where
    "Fetch_deployments (s_Deployments out) [] (done_ch s) = Inr (deployments, dn)"
    and "done_ch s1 = dn"
    by auto
  with Fetch_deployments_Inr
  show "ch_closed (done_ch s1)
          = (ch_closed (done_ch s) \<or> (\<exists>d\<in>set (s_Deployments out). primary_completed d))"
    by blast
next
  assume h: "(\<forall>d\<in>set (s_Deployments out). TaskDefARN_wellformed (StringValue (d_TaskDefinition d)))
        \<and> \<not> ch_closed (done_ch s)
        \<and> length (filter primary_completed (s_Deployments out)) \<le> 1"
  then have "length (filter primary_completed (s_Deployments out))
               \<le> (if ch_closed (done_ch s) then 0 else 1)"
    by simp
  with h Fetch_deployments_total [of "s_Deployments out" "done_ch s" "[]"]
  obtain acc' dn' where "Fetch_deployments (s_Deployments out) [] (done_ch s) = Inr (acc', dn')"
    by blast
  then show "\<exists>s2. Fetch iv (Inr out) now s = Inr ((now + iv, None), s2)"
    by (simp add: Fetch_def split: prod.splits)
qed

theorem done_signaled_once_witness:
  "run 5 [CallFetch (Inr example_service) 100] example_streamer = Inr example_fetched
   \<and> \<not> ch_closed (done_ch example_streamer)
   \<and> ch_closed (done_ch example_fetched)
   \<and> run 5 [CallNotify, CallSubscribe] example_fetched
       = Inr (example_fetched\<lparr>subscribers := [make_chan], eventsToFlush := []\<rparr>)
   \<and> ch_closed (done_ch (example_fetched\<lparr>subscribers := [make_chan], eventsToFlush := []\<rparr>))"
proof -
  have r1: "run 5 [CallFetch (Inr example_service) 100] example_streamer = Inr example_fetched"
    by (simp add: example_Fetch)
  have r2: "run 5 [CallNotify, CallSubscribe] example_fetched
       = Inr (example_fetched\<lparr>subscribers := [make_chan], eventsToFlush := []\<rparr>)"
    by (simp add: Notify_def Subscribe_def example_fetched_def)
  have o: "\<not> ch_closed (done_ch example_streamer)"
    by (simp add: example_streamer_def NewECSDeploymentStreamer_def make_chan_def)
  have wf: "\<forall>d\<in>set (s_Deployments example_service).
              TaskDefARN_wellformed (StringValue (d_TaskDefinition d))"
    by (simp add: example_service_def example_primary_def StringValue_def example_wellformed)
  have one: "length (filter primary_completed (s_Deployments example_service)) \<le> 1"
    by (simp add: example_service_def)
  have ex: "\<exists>d\<in>set (s_Deployments example_service). primary_completed d"
    by (simp add: example_service_def example_primary_completed)
  from done_signaled_once
         [of 5 "[CallNotify, CallSubscribe]" example_fetched
             "example_fetched\<lparr>subscribers := [make_chan], eventsToFlush := []\<rparr>"
             example_service 100 "(105, None)" example_fetched]
  have a: "ch_closed (done_ch example_fetched) \<longrightarrow>
           ch_closed (done_ch (example_fetched\<lparr>subscribers := [make_chan], eventsToFlush := []\<rparr>))"
    using r2 by simp
  from done_signaled_once
         [of 5 "[]" example_streamer example_streamer
             example_service 100 "(105, None)" example_fetched]
  have b: "ch_closed (done_ch example_fetched)"
    using example_Fetch ex by simp
  from r1 r2 o a b show ?thesis by simp
qed

text \<open>
  The claim as written fails: \<open>close(s.done)\<close> runs again in a second \<open>Fetch\<close> that
  observes the completed primary deployment, and closing a closed channel panics.
\<close>

theorem done_signaled_twice_counterexample:
  "run 5 [CallFetch (Inr example_service) 100, CallFetch (Inr example_service) 105]
     (NewECSDeploymentStreamer ''cluster'' ''webapp'' 10) = Inl CloseOfClosedChannel"
  using example_Fetch example_Fetch_again by (simp add: example_streamer_def)

text \<open>
  Claim C9, as amended. For every describe result whose task-definition identifiers are
  well-formed and that signals completion at most once (no completed primary deployment
  when the signal is already signaled, at most one when it is open), \<open>Fetch\<close> returns
  the next poll time and no error, without panic. Whenever \<open>Fetch\<close> returns an error,
  the describe call had failed.
\<close>

theorem Fetch_total:
  "((\<forall>d\<in>set (s_Deployments out). TaskDefARN_wellformed (StringValue (d_TaskDefinition d)))
      \<and> length (filter primary_completed (s_Deployments out))
          \<le> (if ch_closed (done_ch s) then 0 else 1) \<longrightarrow>
      (\<exists>s'. Fetch iv (Inr out) now s = Inr ((now + iv, None), s')))
   \<and> (Fetch iv described now s = Inr ((next, Some err), s1) \<longrightarrow>
        (\<exists>cause. described = Inl cause))"
proof (intro conjI impI)
  assume h: "(\<forall>d\<in>set (s_Deployments out). TaskDefARN_wellformed (StringValue (d_TaskDefinition d)))
      \<and> length (filter primary_completed (s_Deployments out))
          \<le> (if ch_closed (done_ch s) then 0 else 1)"
  with Fetch_deployments_total [of "s_Deployments out" "done_ch s" "[]"]
  obtain acc' dn' where "Fetch_deployments (s_Deployments out) [] (done_ch s) = Inr (acc', dn')"
    by blast
  then show "\<exists>s'. Fetch iv (Inr out) now s = Inr ((now + iv, None), s')"
    by (simp add: Fetch_def split: prod.splits)
next
  assume f: "Fetch iv described now s = Inr ((next, Some err), s1)"
  show "\<exists>cause. described = Inl cause"
  proof (cases described)
    case (Inl cause)
    then show ?thesis by blast
  next
    case (Inr out)
    with f Fetch_Inr [of iv out now s "(next, Some err)" s1] show ?thesis by auto
  qed
qed

theorem Fetch_total_witness:
  "(\<exists>s'. Fetch 5 (Inr example_service) 100 example_streamer = Inr ((100 + 5, None), s'))
   \<and> Fetch 5 (Inl (ExternalError ''timeout'')) 100 example_streamer
       = Inr ((0, Some (Errorf_w ''fetch service description: '' (ExternalError ''timeout''))),
              example_streamer)"
proof -
  have wf: "\<forall>d\<in>set (s_Deployments example_service).
              TaskDefARN_wellformed (StringValue (d_TaskDefinition d))"
    by (simp add: example_service_def example_primary_def StringValue_def example_wellformed)
  have one: "length (filter primary_completed (s_Deployments example_service))
               \<le> (if ch_closed (done_ch example_streamer) then 0 else 1)"
    by (simp add: example_service_def example_streamer_def NewECSDeploymentStreamer_def
          make_chan_def)
  from Fetch_total [of example_service example_streamer 5 100] wf one
  have "\<exists>s'. Fetch 5 (Inr example_service) 100 example_streamer = Inr ((100 + 5, None), s')"
    by blast
  then show ?thesis by (simp add: Fetch_def)
qed

text \<open>
  The claim as written fails on well-formed input once the signal is signaled: the
  worked poll, fetched a second time, panics.
\<close>

theorem Fetch_total_counterexample:
  "s_Deployments example_service = [example_primary]
   \<and> TaskDefARN_wellformed (StringValue (d_TaskDefinition example_primary))
   \<and> Fetch 5 (Inr example_service) 105 example_fetched = Inl CloseOfClosedChannel"
  using example_Fetch_again
  by (simp add: example_service_def example_primary_def StringValue_def example_wellformed)


subsection \<open>The ledger\<close>

lemma Fetch_events_map_le: "past \<subseteq>\<^sub>m snd (Fetch_events t es msgs past)"
proof -
  have "id \<in> dom past \<Longrightarrow>
          id \<notin> set (map event_id (take (stop_point t (dom past) es) es))" for id
  proof
    assume d: "id \<in> dom past"
      and "id \<in> set (map event_id (take (stop_point t (dom past) es) es))"
    then obtain i where i: "i < stop_point t (dom past) es" and "id = event_id (es ! i)"
      by (auto simp: in_set_conv_nth)
    with stop_point_before [OF i] d show False by auto
  qed
  then show ?thesis
    by (auto simp: Fetch_events_eq map_le_def)
qed

lemma Fetch_ledger:
  assumes "Fetch iv described now s = Inr (r, s')"
  shows "pastEventIDs s \<subseteq>\<^sub>m pastEventIDs s'"
proof (cases described)
  case (Inl e)
  with assms show ?thesis by (simp add: Fetch_def)
next
  case (Inr out)
  with assms Fetch_Inr [of iv out now s r s'] have
    "pastEventIDs s' = snd (Fetch_events (deploymentCreationTime s) (s_Events out) []
                              (pastEventIDs s))"
    by auto
  then show ?thesis by (simp add: Fetch_events_map_le)
qed

lemma step_ledger: "step iv c s = Inr s' \<Longrightarrow> pastEventIDs s \<subseteq>\<^sub>m pastEventIDs s'"
proof (cases c)
  case CallSubscribe
  assume "step iv c s = Inr s'"
  with CallSubscribe show ?thesis by (auto simp: Subscribe_def)
next
  case (CallFetch described now)
  assume "step iv c s = Inr s'"
  with CallFetch obtain r where "Fetch iv described now s = Inr (r, s')"
    by (auto split: sum.splits)
  then show ?thesis by (rule Fetch_ledger)
next
  case CallNotify
  assume "step iv c s = Inr s'"
  with CallNotify show ?thesis by (auto dest: Notify_fields)
next
  case CallClose
  assume "step iv c s = Inr s'"
  with CallClose show ?thesis by (auto dest: Close_fields)
qed

lemma run_ledger: "run iv calls s = Inr s' \<Longrightarrow> pastEventIDs s \<subseteq>\<^sub>m pastEventIDs s'"
proof (induction calls arbitrary: s)
  case Nil
  then show ?case by simp
next
  case (Cons c calls)
  from Cons.prems obtain s1 where
    one: "step iv c s = Inr s1" and rest: "run iv calls s1 = Inr s'"
    by (auto split: sum.splits)
  from step_ledger [OF one] Cons.IH [OF rest] show ?case
    by (rule map_le_trans)
qed

lemma stop_point_again:
  "stop_point t (dom (snd (Fetch_events t es msgs past))) es = 0"
proof (cases es)
  case Nil
  then show ?thesis by simp
next
  case (Cons e rest)
  show ?thesis
  proof (cases "Before (event_created e) t \<or> past (event_id e) \<noteq> None")
    case True
    with Cons show ?thesis by auto
  next
    case False
    have "past(event_id e \<mapsto> True) \<subseteq>\<^sub>m
            snd (Fetch_events t rest
                   (if isFailureServiceEvent (event_msg e) then msgs @ [event_msg e] else msgs)
                   (past(event_id e \<mapsto> True)))"
      by (rule Fetch_events_map_le)
    then have "dom (past(event_id e \<mapsto> True)) \<subseteq> dom (snd (Fetch_events t rest
                   (if isFailureServiceEvent (event_msg e) then msgs @ [event_msg e] else msgs)
                   (past(event_id e \<mapsto> True))))"
      by (rule map_le_implies_dom_le)
    then have "event_id e \<in> dom (snd (Fetch_events t rest
                   (if isFailureServiceEvent (event_msg e) then msgs @ [event_msg e] else msgs)
                   (past(event_id e \<mapsto> True))))"
      by auto
    with False Cons show ?thesis by (simp add: Let_def)
  qed
qed

lemma Fetch_events_again:
  "Fetch_events t es msgs2 (snd (Fetch_events t es msgs past))
     = (msgs2, snd (Fetch_events t es msgs past))"
  by (subst Fetch_events_eq) (simp add: stop_point_again)

text \<open>
  Claim C3. Over every sequence of calls on a streamer that runs to its end, every
  identifier in the ledger before is in the ledger after, with its entry unchanged: no
  call removes or rewrites one. Recording an identifier that is already present leaves
  the set of identifiers as it was, and the ledger itself as it was since every entry
  is \<open>true\<close>. Polling the same events again records nothing: the loop stops at once
  and the ledger is unchanged.
\<close>

theorem ledger_grows:
  "(run iv calls s = Inr s' \<longrightarrow>
      dom (pastEventIDs s) \<subseteq> dom (pastEventIDs s') \<and> pastEventIDs s \<subseteq>\<^sub>m pastEventIDs s')
   \<and> (eid \<in> dom (pastEventIDs s) \<longrightarrow>
        dom ((pastEventIDs s)(eid \<mapsto> True)) = dom (pastEventIDs s))
   \<and> (pastEventIDs s eid = Some True \<longrightarrow> (pastEventIDs s)(eid \<mapsto> True) = pastEventIDs s)
   \<and> Fetch_events t es msgs2 (snd (Fetch_events t es msgs (pastEventIDs s)))
       = (msgs2, snd (Fetch_events t es msgs (pastEventIDs s)))"
proof (intro conjI impI)
  assume r: "run iv calls s = Inr s'"
  from run_ledger [OF r] show "pastEventIDs s \<subseteq>\<^sub>m pastEventIDs s'" .
  then show "dom (pastEventIDs s) \<subseteq> dom (pastEventIDs s')" by (rule map_le_implies_dom_le)
next
  assume "eid \<in> dom (pastEventIDs s)"
  then show "dom ((pastEventIDs s)(eid \<mapsto> True)) = dom (pastEventIDs s)" by auto
next
  assume "pastEventIDs s eid = Some True"
  then show "(pastEventIDs s)(eid \<mapsto> True) = pastEventIDs s" by (rule map_upd_triv)
next
  show "Fetch_events t es msgs2 (snd (Fetch_events t es msgs (pastEventIDs s)))
       = (msgs2, snd (Fetch_events t es msgs (pastEventIDs s)))"
    by (rule Fetch_events_again)
qed

theorem ledger_grows_witness:
  "run 5 [CallFetch (Inr example_service) 100, CallNotify] example_streamer
     = Inr (example_fetched\<lparr>eventsToFlush := []\<rparr>)
   \<and> dom (pastEventIDs example_streamer) = {}
   \<and> dom (pastEventIDs (example_fetched\<lparr>eventsToFlush := []\<rparr>)) = {''e2'', ''e3''}
   \<and> dom (pastEventIDs example_streamer)
       \<subseteq> dom (pastEventIDs (example_fetched\<lparr>eventsToFlush := []\<rparr>))
   \<and> pastEventIDs example_fetched ''e3'' = Some True
   \<and> (pastEventIDs example_fetched)(''e3'' \<mapsto> True) = pastEventIDs example_fetched"
proof -
  have r: "run 5 [CallFetch (Inr example_service) 100, CallNotify] example_streamer
     = Inr (example_fetched\<lparr>eventsToFlush := []\<rparr>)"
    by (simp add: example_Fetch Notify_def) (simp add: example_fetched_def)
  have e3: "pastEventIDs example_fetched ''e3'' = Some True"
    by (simp add: example_fetched_def)
  have d0: "dom (pastEventIDs example_streamer) = {}"
    by (simp add: example_streamer_def NewECSDeploymentStreamer_def)
  have d1: "dom (pastEventIDs (example_fetched\<lparr>eventsToFlush := []\<rparr>)) = {''e2'', ''e3''}"
    by (auto simp: example_fetched_def)
  from ledger_grows
         [of 5 "[CallFetch (Inr example_service) 100, CallNotify]" example_streamer
             "example_fetched\<lparr>eventsToFlush := []\<rparr>"]
       r
  have sub: "dom (pastEventIDs example_streamer)
       \<subseteq> dom (pastEventIDs (example_fetched\<lparr>eventsToFlush := []\<rparr>))"
    by blast
  from ledger_grows [of 5 "[]" example_fetched example_fetched "''e3''"] e3
  have upd: "(pastEventIDs example_fetched)(''e3'' \<mapsto> True) = pastEventIDs example_fetched"
    by blast
  from r d0 d1 sub e3 upd show ?thesis by blast
qed


subsection \<open>Notify\<close>

lemma Notify_subscribers_open:
  "\<forall>c\<in>set subs. \<not> ch_closed c \<Longrightarrow>
     Notify_subscribers subs event
       = Inr (map (\<lambda>c. c\<lparr>ch_delivered := ch_delivered c @ [event]\<rparr>) subs)"
  by (induction subs) (auto simp: send_def)

lemma Notify_subscribers_Inr:
  "Notify_subscribers subs event = Inr subs' \<Longrightarrow>
     subs' = map (\<lambda>c. c\<lparr>ch_delivered := ch_delivered c @ [event]\<rparr>) subs"
  by (induction subs arbitrary: subs') (auto simp: send_def split: sum.splits if_splits)

lemma Notify_events_Inr:
  "Notify_events events subs = Inr subs' \<Longrightarrow>
     subs' = map (\<lambda>c. c\<lparr>ch_delivered := ch_delivered c @ events\<rparr>) subs"
proof (induction events arbitrary: subs)
  case Nil
  then show ?case by (simp add: map_idI)
next
  case (Cons event events)
  from Cons.prems obtain subs1 where
    one: "Notify_subscribers subs event = Inr subs1"
    and rest: "Notify_events events subs1 = Inr subs'"
    by (auto split: sum.splits)
  from Notify_subscribers_Inr [OF one] Cons.IH [OF rest] show ?case
    by (simp add: comp_def)
qed

lemma Notify_events_open:
  "\<forall>c\<in>set subs. \<not> ch_closed c \<Longrightarrow>
     Notify_events events subs
       = Inr (map (\<lambda>c. c\<lparr>ch_delivered := ch_delivered c @ events\<rparr>) subs)"
proof (induction events arbitrary: subs)
  case Nil
  then show ?case by (simp add: map_idI)
next
  case (Cons event events)
  let ?subs1 = "map (\<lambda>c. c\<lparr>ch_delivered := ch_delivered c @ [event]\<rparr>) subs"
  from Cons.prems have one: "Notify_subscribers subs event = Inr ?subs1"
    by (rule Notify_subscribers_open)
  from Cons.prems have "\<forall>c\<in>set ?subs1. \<not> ch_closed c" by simp
  from Cons.IH [OF this] one show ?case
    by (simp add: comp_def)
qed

text \<open>
  Claim C4. When no subscriber channel has been closed (\<open>Close\<close> has not been called:
  after it no more events are sent), \<open>Notify\<close> returns, every subscriber has received
  every buffered snapshot, in the order of the buffer, after what it had received
  before, and the buffer is empty. Whenever \<open>Notify\<close> returns it has done exactly that.
  With an empty buffer \<open>Notify\<close> sends nothing and leaves the streamer as it was.
\<close>

theorem Notify_delivers_all:
  "((\<forall>c\<in>set (subscribers s). \<not> ch_closed c) \<longrightarrow>
      Notify s = Inr (s\<lparr>subscribers :=
                           map (\<lambda>c. c\<lparr>ch_delivered := ch_delivered c @ eventsToFlush s\<rparr>)
                             (subscribers s),
                        eventsToFlush := []\<rparr>))
   \<and> (Notify s = Inr s' \<longrightarrow>
        s' = s\<lparr>subscribers :=
                  map (\<lambda>c. c\<lparr>ch_delivered := ch_delivered c @ eventsToFlush s\<rparr>)
                    (subscribers s),
                eventsToFlush := []\<rparr>)
   \<and> (eventsToFlush s = [] \<longrightarrow> Notify s = Inr s)"
proof (intro conjI impI)
  assume "\<forall>c\<in>set (subscribers s). \<not> ch_closed c"
  then show "Notify s = Inr (s\<lparr>subscribers :=
                           map (\<lambda>c. c\<lparr>ch_delivered := ch_delivered c @ eventsToFlush s\<rparr>)
                             (subscribers s),
                        eventsToFlush := []\<rparr>)"
    by (simp add: Notify_def Notify_events_open)
next
  assume "Notify s = Inr s'"
  then show "s' = s\<lparr>subscribers :=
                  map (\<lambda>c. c\<lparr>ch_delivered := ch_delivered c @ eventsToFlush s\<rparr>)
                    (subscribers s),
                eventsToFlush := []\<rparr>"
    by (auto simp: Notify_def split: sum.splits dest: Notify_events_Inr)
next
  assume "eventsToFlush s = []"
  then show "Notify s = Inr s"
    by (simp add: Notify_def)
qed

theorem Notify_delivers_all_witness:
  "Notify example_buffered
     = Inr (example_buffered
              \<lparr>subscribers :=
                 [\<lparr>ch_closed = False, ch_delivered = [example_snapshot, example_quiet]\<rparr>,
                  \<lparr>ch_closed = False, ch_delivered = [example_snapshot, example_quiet]\<rparr>],
               eventsToFlush := []\<rparr>)
   \<and> Notify example_streamer = Inr example_streamer"
proof -
  have o: "\<forall>c\<in>set (subscribers example_buffered). \<not> ch_closed c"
    by (simp add: example_buffered_def make_chan_def)
  have e: "eventsToFlush example_streamer = []"
    by (simp add: example_streamer_def NewECSDeploymentStreamer_def)
  from Notify_delivers_all [of example_buffered] o
  have "Notify example_buffered
     = Inr (example_buffered
              \<lparr>subscribers :=
                 map (\<lambda>c. c\<lparr>ch_delivered := ch_delivered c @ eventsToFlush example_buffered\<rparr>)
                   (subscribers example_buffered),
               eventsToFlush := []\<rparr>)"
    by blast
  moreover from Notify_delivers_all [of example_streamer] e
  have "Notify example_streamer = Inr example_streamer"
    by blast
  ultimately show ?thesis
    by (simp add: example_buffered_def make_chan_def)
qed

text \<open>
  Claim C10. With no subscriber, \<open>Notify\<close> sends nothing and empties the buffer. What
  follows does not depend on the discarded snapshots: any further calls run as from the
  streamer with an empty buffer, and a channel subscribed afterwards has received
  nothing after the next \<open>Notify\<close>.
\<close>

theorem Notify_without_subscribers:
  "subscribers s = [] \<Longrightarrow>
     Notify s = Inr (s\<lparr>eventsToFlush := []\<rparr>)
   \<and> run iv (CallNotify # calls) s = run iv calls (s\<lparr>eventsToFlush := []\<rparr>)
   \<and> run iv [CallNotify, CallSubscribe, CallNotify] s
       = Inr (s\<lparr>subscribers := [make_chan], eventsToFlush := []\<rparr>)"
proof -
  assume n: "subscribers s = []"
  have ne: "Notify_events events [] = Inr []" for events
    by (induction events) auto
  from n have a: "Notify s = Inr (s\<lparr>eventsToFlush := []\<rparr>)"
    by (simp add: Notify_def ne)
  then have b: "run iv (CallNotify # calls) s = run iv calls (s\<lparr>eventsToFlush := []\<rparr>)"
    by simp
  from a n have c: "run iv [CallNotify, CallSubscribe, CallNotify] s
       = Inr (s\<lparr>subscribers := [make_chan], eventsToFlush := []\<rparr>)"
    by (simp add: Subscribe_def Notify_def)
  from a b c show ?thesis by simp
qed

theorem Notify_without_subscribers_witness:
  "subscribers example_fetched = []
   \<and> eventsToFlush example_fetched \<noteq> []
   \<and> Notify example_fetched = Inr (example_fetched\<lparr>eventsToFlush := []\<rparr>)
   \<and> run 5 [CallNotify, CallSubscribe, CallNotify] example_fetched
       = Inr (example_fetched\<lparr>subscribers := [\<lparr>ch_closed = False, ch_delivered = []\<rparr>],
                               eventsToFlush := []\<rparr>)"
proof -
  have n: "subscribers example_fetched = []" and b: "eventsToFlush example_fetched \<noteq> []"
    by (simp_all add: example_fetched_def)
  from Notify_without_subscribers [OF n, of 5 "[]"]
  have k: "Notify example_fetched = Inr (example_fetched\<lparr>eventsToFlush := []\<rparr>)"
    and r: "run 5 [CallNotify, CallSubscribe, CallNotify] example_fetched
       = Inr (example_fetched\<lparr>subscribers := [make_chan], eventsToFlush := []\<rparr>)"
    by blast+
  from n b k r show ?thesis
    unfolding make_chan_def by blast
qed


end
